theory Spec2Isabelle
  imports Complex_Main
begin

section \<open>Python values used by singularity_scan.py\<close>

subsection \<open>Exceptions\<close>

datatype py_error = TypeError | ValueError | OverflowError | ZeroDivisionError

subsection \<open>Floats: IEEE 754 binary64, round to nearest, ties to even\<close>

text \<open>
  A Python float is a binary64 value. \<open>Fin s m e\<close> is the finite value
  \<open>(-1)^s * m * 2^e\<close>; the results of all operations are in canonical form (either
  \<open>2^52 \<le> m < 2^53\<close> and \<open>-1074 \<le> e \<le> 971\<close>, or \<open>m < 2^52\<close> and \<open>e = -1074\<close>), so
  that \<open>Fin False 0 (-1074)\<close> is \<open>0.0\<close> and \<open>Fin True 0 (-1074)\<close> is \<open>-0.0\<close>.
  \<open>Inf s\<close> is the infinity of sign \<open>s\<close> and \<open>NaN\<close> is not-a-number.
\<close>

datatype pyfloat = Fin bool nat int | Inf bool | NaN

definition fzero :: "bool \<Rightarrow> pyfloat" where
  "fzero s = Fin s 0 (-1074)"

text \<open>The number of digits of \<open>n\<close> in base \<open>b\<close> (0 for 0), for \<open>b \<ge> 2\<close>.\<close>

fun ndigits :: "nat \<Rightarrow> nat \<Rightarrow> int" where
  "ndigits b n = (if n = 0 \<or> b < 2 then 0 else ndigits b (n div b) + 1)"

declare ndigits.simps [simp del]

text \<open>\<open>\<lfloor>log\<^sub>2 (num / den)\<rfloor>\<close> for positive \<open>num\<close> and \<open>den\<close>.\<close>

definition ge_pow2 :: "nat \<Rightarrow> nat \<Rightarrow> int \<Rightarrow> bool" where
  "ge_pow2 num den k =
     (if 0 \<le> k then den * 2 ^ nat k \<le> num else den \<le> num * 2 ^ nat (- k))"

definition ilog2_ratio :: "nat \<Rightarrow> nat \<Rightarrow> int" where
  "ilog2_ratio num den =
     (let k = ndigits 2 num - ndigits 2 den
      in if ge_pow2 num den k then k else k - 1)"

text \<open>The integer nearest to \<open>n / d\<close>, a tie going to the even neighbour.\<close>

definition round_half_even :: "nat \<Rightarrow> nat \<Rightarrow> nat" where
  "round_half_even n d =
     (let q = n div d; r = n mod d
      in if 2 * r < d then q
         else if d < 2 * r then q + 1
         else if even q then q else q + 1)"

text \<open>
  \<open>rnd s num den\<close> is the binary64 value nearest to \<open>(-1)^s * num / den\<close>: 53 significant
  bits, exponent of the last place at least \<open>-1074\<close> (gradual underflow), overflow to infinity.
\<close>

definition rnd :: "bool \<Rightarrow> nat \<Rightarrow> nat \<Rightarrow> pyfloat" where
  "rnd s num den =
     (if num = 0 then fzero s
      else
        let e = max (ilog2_ratio num den - 52) (- 1074);
            m = (if 0 \<le> e then round_half_even num (den * 2 ^ nat e)
                 else round_half_even (num * 2 ^ nat (- e)) den);
            m' = (if m = 2 ^ 53 then 2 ^ 52 else m);
            e' = (if m = 2 ^ 53 then e + 1 else e)
        in if 971 < e' then Inf s else Fin s m' e')"

text \<open>The value nearest to \<open>(-1)^s * n * 2^e\<close>.\<close>

definition rnd_scaled :: "bool \<Rightarrow> nat \<Rightarrow> int \<Rightarrow> pyfloat" where
  "rnd_scaled s n e = (if 0 \<le> e then rnd s (n * 2 ^ nat e) 1 else rnd s n (2 ^ nat (- e)))"

text \<open>
  The common exponent at which two finite values are added or compared: the smaller of the
  two exponents, a zero having none.
\<close>

definition align_exp :: "nat \<Rightarrow> int \<Rightarrow> nat \<Rightarrow> int \<Rightarrow> int" where
  "align_exp m e n f = (if m = 0 then f else if n = 0 then e else min e f)"

text \<open>The signed integer \<open>(-1)^s * m * 2^(e - e0)\<close>, for \<open>e0 \<le> e\<close> or \<open>m = 0\<close>.\<close>

definition aligned :: "int \<Rightarrow> bool \<Rightarrow> nat \<Rightarrow> int \<Rightarrow> int" where
  "aligned e0 s m e = (if s then - int (m * 2 ^ nat (e - e0)) else int (m * 2 ^ nat (e - e0)))"

fun fmul :: "pyfloat \<Rightarrow> pyfloat \<Rightarrow> pyfloat" where
  "fmul NaN _ = NaN"
| "fmul _ NaN = NaN"
| "fmul (Inf s) (Inf t) = Inf (s \<noteq> t)"
| "fmul (Inf s) (Fin t m e) = (if m = 0 then NaN else Inf (s \<noteq> t))"
| "fmul (Fin s m e) (Inf t) = (if m = 0 then NaN else Inf (s \<noteq> t))"
| "fmul (Fin s m e) (Fin t n f) = rnd_scaled (s \<noteq> t) (m * n) (e + f)"

fun fadd :: "pyfloat \<Rightarrow> pyfloat \<Rightarrow> pyfloat" where
  "fadd NaN _ = NaN"
| "fadd _ NaN = NaN"
| "fadd (Inf s) (Inf t) = (if s = t then Inf s else NaN)"
| "fadd (Inf s) (Fin t m e) = Inf s"
| "fadd (Fin s m e) (Inf t) = Inf t"
| "fadd (Fin s m e) (Fin t n f) =
     (let e0 = align_exp m e n f;
          r = aligned e0 s m e + aligned e0 t n f
      in if r = 0 then fzero (s \<and> t) else rnd_scaled (r < 0) (nat \<bar>r\<bar>) e0)"

definition is_zero :: "pyfloat \<Rightarrow> bool" where
  "is_zero x = (case x of Fin s m e \<Rightarrow> m = 0 | _ \<Rightarrow> False)"

text \<open>Python's \<open>x / y\<close> on floats raises when the divisor is zero, whatever the dividend.\<close>

fun fdiv :: "pyfloat \<Rightarrow> pyfloat \<Rightarrow> py_error + pyfloat" where
  "fdiv x (Fin t n f) =
     (if n = 0 then Inl ZeroDivisionError
      else case x of
        NaN \<Rightarrow> Inr NaN
      | Inf s \<Rightarrow> Inr (Inf (s \<noteq> t))
      | Fin s m e \<Rightarrow>
          Inr (if e \<le> f then rnd (s \<noteq> t) m (n * 2 ^ nat (f - e))
               else rnd (s \<noteq> t) (m * 2 ^ nat (e - f)) n))"
| "fdiv x NaN = Inr NaN"
| "fdiv x (Inf t) =
     (case x of
        NaN \<Rightarrow> Inr NaN
      | Inf s \<Rightarrow> Inr NaN
      | Fin s m e \<Rightarrow> Inr (fzero (s \<noteq> t)))"

text \<open>Comparison: every comparison with NaN is false, and \<open>-0.0\<close> equals \<open>0.0\<close>.\<close>

fun fle :: "pyfloat \<Rightarrow> pyfloat \<Rightarrow> bool" where
  "fle NaN _ = False"
| "fle _ NaN = False"
| "fle (Inf s) (Inf t) = (s \<or> \<not> t)"
| "fle (Inf s) (Fin t n f) = s"
| "fle (Fin s m e) (Inf t) = (\<not> t)"
| "fle (Fin s m e) (Fin t n f) =
     (let e0 = align_exp m e n f in aligned e0 s m e \<le> aligned e0 t n f)"

definition fge :: "pyfloat \<Rightarrow> pyfloat \<Rightarrow> bool" where
  "fge x y = fle y x"

fun flt :: "pyfloat \<Rightarrow> pyfloat \<Rightarrow> bool" where
  "flt NaN _ = False"
| "flt _ NaN = False"
| "flt x y = (\<not> fle y x)"

text \<open>\<open>\<lfloor>\<surd>n\<rfloor>\<close>, one bit at a time from the top.\<close>

primrec isqrt_loop :: "nat \<Rightarrow> nat \<Rightarrow> nat \<Rightarrow> nat" where
  "isqrt_loop n 0 r = r"
| "isqrt_loop n (Suc k) r =
     isqrt_loop n k (if (r + 2 ^ k) * (r + 2 ^ k) \<le> n then r + 2 ^ k else r)"

definition isqrt :: "nat \<Rightarrow> nat" where
  "isqrt n = isqrt_loop n (nat (ndigits 2 n)) 0"

text \<open>
  \<open>math.sqrt\<close>: correctly rounded; a negative argument raises ValueError. The root of
  \<open>m * 2^e\<close> is taken on the integer \<open>N = m' * 2^110\<close> (with \<open>m' * 2^e' = m * 2^e\<close>, \<open>e'\<close>
  even): \<open>\<lfloor>\<surd>N\<rfloor>\<close> has more than 54 bits, so rounding it with a sticky bit for the
  remainder rounds the exact root.
\<close>

fun fsqrt :: "pyfloat \<Rightarrow> py_error + pyfloat" where
  "fsqrt NaN = Inr NaN"
| "fsqrt (Inf s) = (if s then Inl ValueError else Inr (Inf False))"
| "fsqrt (Fin s m e) =
     (if m = 0 then Inr (fzero s)
      else if s then Inl ValueError
      else
        let m' = (if even e then m else 2 * m);
            e' = (if even e then e else e - 1);
            N = m' * 2 ^ 110;
            r = isqrt N;
            sticky = (if r * r = N then 0 else 1)
        in Inr (rnd_scaled False (2 * r + sticky) (e' div 2 - 56)))"

text \<open>\<open>float(i)\<close> for a Python int: correctly rounded, OverflowError beyond the finite range.\<close>

definition float_of_int :: "int \<Rightarrow> py_error + pyfloat" where
  "float_of_int i =
     (case rnd (i < 0) (nat \<bar>i\<bar>) 1 of
        Inf s \<Rightarrow> Inl OverflowError
      | x \<Rightarrow> Inr x)"

definition fone :: pyfloat where
  "fone = Fin False (2 ^ 52) (- 52)"

definition fminus_one :: pyfloat where
  "fminus_one = Fin True (2 ^ 52) (- 52)"

subsection \<open>Formatting and parsing floats\<close>

text \<open>\<open>\<lfloor>log\<^sub>1\<^sub>0 (num / den)\<rfloor>\<close> for positive \<open>num\<close> and \<open>den\<close>.\<close>

definition dec_exp :: "nat \<Rightarrow> nat \<Rightarrow> int" where
  "dec_exp num den =
     (if den \<le> num then ndigits 10 (num div den) - 1
      else - ndigits 10 ((den - 1) div num))"

definition digit_char :: "nat \<Rightarrow> char" where
  "digit_char d = ''0123456789'' ! d"

fun digits_of :: "nat \<Rightarrow> string" where
  "digits_of n = (if n < 10 then [digit_char n] else digits_of (n div 10) @ [digit_char (n mod 10)])"

declare digits_of.simps [simp del]

definition strip_zeros :: "string \<Rightarrow> string" where
  "strip_zeros ds = rev (dropWhile (\<lambda>c. c = CHR ''0'') (rev ds))"

definition sign_str :: "bool \<Rightarrow> string" where
  "sign_str s = (if s then ''-'' else [])"

text \<open>The exponent of the scientific form has at least two digits.\<close>

definition sci_str :: "string \<Rightarrow> int \<Rightarrow> string" where
  "sci_str ds d =
     take 1 ds @ (if drop 1 ds = [] then [] else ''.'' @ drop 1 ds) @ ''e''
       @ (if d < 0 then ''-'' else ''+'')
       @ (if \<bar>d\<bar> < 10 then ''0'' else []) @ digits_of (nat \<bar>d\<bar>)"

definition fixed_str :: "string \<Rightarrow> int \<Rightarrow> string" where
  "fixed_str ds d =
     (if 0 \<le> d then
        let w = nat d + 1;
            padded = ds @ replicate (w - length ds) (CHR ''0'');
            frac = drop w padded
        in take w padded @ (if frac = [] then [] else ''.'' @ frac)
      else ''0.'' @ replicate (nat (- d - 1)) (CHR ''0'') @ ds)"

text \<open>
  \<open>format_g p x\<close> is Python's \<open>f"{x:.{p}g}"\<close> for \<open>p \<ge> 1\<close>: the exact value of \<open>x\<close> correctly
  rounded to \<open>p\<close> significant decimal digits (ties to even), trailing zeros removed,
  scientific notation when the decimal exponent is below \<open>-4\<close> or at least \<open>p\<close>.
\<close>

definition format_g :: "nat \<Rightarrow> pyfloat \<Rightarrow> string" where
  "format_g p x =
     (case x of
        NaN \<Rightarrow> ''nan''
      | Inf s \<Rightarrow> sign_str s @ ''inf''
      | Fin s m e \<Rightarrow>
          if m = 0 then sign_str s @ ''0''
          else
            let num = (if 0 \<le> e then m * 2 ^ nat e else m);
                den = (if 0 \<le> e then 1 else 2 ^ nat (- e));
                d0 = dec_exp num den;
                k = int p - 1 - d0;
                n0 = (if 0 \<le> k then round_half_even (num * 10 ^ nat k) den
                      else round_half_even num (den * 10 ^ nat (- k)));
                n = (if n0 = 10 ^ p then 10 ^ (p - 1) else n0);
                d = (if n0 = 10 ^ p then d0 + 1 else d0);
                ds = strip_zeros (digits_of n)
            in sign_str s @ (if d < - 4 \<or> int p \<le> d then sci_str ds d else fixed_str ds d))"

definition is_space :: "char \<Rightarrow> bool" where
  "is_space c = (c \<in> set [CHR '' '', CHR 0x09, CHR 0x0A, CHR 0x0B, CHR 0x0C, CHR 0x0D])"

definition is_digit :: "char \<Rightarrow> bool" where
  "is_digit c = (c \<in> set ''0123456789'')"

definition digit_val :: "char \<Rightarrow> nat" where
  "digit_val c = of_char c - 48"

definition lower :: "char \<Rightarrow> char" where
  "lower c =
     (if (65::nat) \<le> of_char c \<and> of_char c \<le> (90::nat) then char_of (of_char c + (32::nat)) else c)"

text \<open>
  A run of decimal digits in which single underscores may separate digits; returns the digit
  values and the rest of the text.
\<close>

fun parse_digits :: "string \<Rightarrow> nat list \<times> string" where
  "parse_digits [] = ([], [])"
| "parse_digits (c # cs) =
     (if \<not> is_digit c then ([], c # cs)
      else case cs of
        u # c' # cs' \<Rightarrow>
          if u = CHR ''_'' \<and> is_digit c' then
            (let (ds, r) = parse_digits (c' # cs') in (digit_val c # ds, r))
          else (let (ds, r) = parse_digits cs in (digit_val c # ds, r))
      | _ \<Rightarrow> (let (ds, r) = parse_digits cs in (digit_val c # ds, r)))"

definition nat_of_digits :: "nat list \<Rightarrow> nat" where
  "nat_of_digits ds = foldl (\<lambda>a d. 10 * a + d) 0 ds"

text \<open>The optional exponent part; \<open>None\<close> when the text is malformed or does not end there.\<close>

definition parse_exponent :: "string \<Rightarrow> int option" where
  "parse_exponent r =
     (case r of
        [] \<Rightarrow> Some 0
      | c # cs \<Rightarrow>
          if c = CHR ''e'' \<or> c = CHR ''E'' then
            (let neg = (take 1 cs = ''-'');
                 cs' = (if take 1 cs = ''-'' \<or> take 1 cs = ''+'' then drop 1 cs else cs);
                 (ds, r') = parse_digits cs'
             in if ds = [] \<or> r' \<noteq> [] then None
                else Some (if neg then - int (nat_of_digits ds) else int (nat_of_digits ds)))
          else None)"

text \<open>
  \<open>float(s)\<close> for a string: surrounding whitespace, an optional sign, then \<open>inf\<close>,
  \<open>infinity\<close> or \<open>nan\<close> in any case, or a decimal number with optional fraction and
  exponent; the value is correctly rounded. Anything else raises ValueError.
\<close>

definition float_of_string :: "string \<Rightarrow> py_error + pyfloat" where
  "float_of_string s0 =
     (let s1 = rev (dropWhile is_space (rev (dropWhile is_space s0)));
          neg = (take 1 s1 = ''-'');
          s2 = (if take 1 s1 = ''-'' \<or> take 1 s1 = ''+'' then drop 1 s1 else s1);
          low = map lower s2
      in if low = ''inf'' \<or> low = ''infinity'' then Inr (Inf neg)
         else if low = ''nan'' then Inr NaN
         else
           let (ip, r1) = parse_digits s2;
               (fp, r2) = (if take 1 r1 = ''.'' then parse_digits (drop 1 r1) else ([], r1))
           in if ip = [] \<and> fp = [] then Inl ValueError
              else case parse_exponent r2 of
                None \<Rightarrow> Inl ValueError
              | Some x \<Rightarrow>
                  let n = nat_of_digits (ip @ fp);
                      k = x - int (length fp)
                  in Inr (if 0 \<le> k then rnd neg (n * 10 ^ nat k) 1
                          else rnd neg n (10 ^ nat (- k))))"

subsection \<open>Parsed JSON values and records\<close>

datatype json =
    JNull
  | JBool bool
  | JInt int
  | JFloat pyfloat
  | JStr string
  | JArr "json list"
  | JObj "(string \<times> json) list"

text \<open>
  \<open>float(x)\<close> on a parsed JSON value: TypeError for \<open>None\<close>, lists and dicts, ValueError
  for text that is not a number, OverflowError for an int beyond the float range; \<open>bool\<close> is
  a subclass of \<open>int\<close>.
\<close>

fun py_float :: "json \<Rightarrow> py_error + pyfloat" where
  "py_float JNull = Inl TypeError"
| "py_float (JBool b) = float_of_int (if b then 1 else 0)"
| "py_float (JInt i) = float_of_int i"
| "py_float (JFloat x) = Inr x"
| "py_float (JStr s) = float_of_string s"
| "py_float (JArr xs) = Inl TypeError"
| "py_float (JObj kvs) = Inl TypeError"

text \<open>
  One record \<open>g\<close> of the input stream, reduced to what \<open>main\<close> reads of it:
  \<open>g.get("id")\<close> and \<open>g.get("vec")\<close>. The identifier is text when present (\<open>None\<close>: the
  key is missing or null); a missing \<open>vec\<close> reads as \<open>JNull\<close>, as \<open>dict.get\<close> returns
  \<open>None\<close> for it.
\<close>

record glyph =
  g_id :: "string option"
  g_vec :: json

section \<open>The functions of singularity_scan.py\<close>

definition PREC :: nat where
  "PREC = 17"

text \<open>The float nearest to the literal \<open>0.9995\<close>.\<close>

definition NEAR_THRESH :: pyfloat where
  "NEAR_THRESH = Fin False 9002695655113622 (- 53)"

definition N_PROJ :: nat where
  "N_PROJ = 12"

text \<open>Collects the results of a generator until the first exception.\<close>

fun collect :: "('a \<Rightarrow> py_error + 'b) \<Rightarrow> 'a list \<Rightarrow> py_error + 'b list" where
  "collect f [] = Inr []"
| "collect f (x # xs) =
     (case f x of
        Inl err \<Rightarrow> Inl err
      | Inr y \<Rightarrow> (case collect f xs of Inl err \<Rightarrow> Inl err | Inr ys \<Rightarrow> Inr (y # ys)))"

definition round_vec :: "pyfloat list \<Rightarrow> nat \<Rightarrow> py_error + pyfloat list" where
  "round_vec v p = collect (\<lambda>x. float_of_string (format_g p x)) v"

text \<open>
  \<open>hashlib.sha256\<close> is a library function: \<open>sha256\<close> maps the bytes fed to the hash object to
  its hexdigest. The formatted floats are ASCII, so \<open>encode()\<close> leaves them as they are.
\<close>

definition hash_input :: "pyfloat list \<Rightarrow> string" where
  "hash_input v = concat (map (\<lambda>x. format_g 17 x @ '','') v)"

definition hash_vec :: "(string \<Rightarrow> string) \<Rightarrow> pyfloat list \<Rightarrow> string" where
  "hash_vec sha256 v = sha256 (hash_input v)"

text \<open>
  \<open>sum\<close> adds from left to right, starting from the int \<open>0\<close>, which the first addition
  converts to \<open>0.0\<close>; the int \<open>0\<close> that \<open>sum\<close> returns for no items is read as \<open>0.0\<close>, which
  is what \<open>math.sqrt\<close> and \<open>/\<close> convert it to.
\<close>

definition py_sum :: "pyfloat list \<Rightarrow> pyfloat" where
  "py_sum xs = foldl fadd (fzero False) xs"

definition dot :: "pyfloat list \<Rightarrow> pyfloat list \<Rightarrow> pyfloat" where
  "dot a b = py_sum (map (\<lambda>(x, y). fmul x y) (zip a b))"

text \<open>\<open>e or 1.0\<close>: a float is false exactly when it is zero (NaN is true).\<close>

definition norm_vec :: "pyfloat list \<Rightarrow> py_error + pyfloat" where
  "norm_vec v =
     (case fsqrt (py_sum (map (\<lambda>x. fmul x x) v)) of
        Inl err \<Rightarrow> Inl err
      | Inr r \<Rightarrow> Inr (if is_zero r then fone else r))"

definition cos_vec :: "pyfloat list \<Rightarrow> pyfloat list \<Rightarrow> py_error + pyfloat" where
  "cos_vec a b =
     (let d = dot a b
      in case norm_vec a of
           Inl err \<Rightarrow> Inl err
         | Inr na \<Rightarrow>
             (case norm_vec b of
                Inl err \<Rightarrow> Inl err
              | Inr nb \<Rightarrow> fdiv d (fmul na nb)))"

text \<open>
  \<open>random.Random(seed)\<close> is a library object: \<open>rng seed i\<close> is the result of its \<open>i\<close>-th call
  of \<open>random()\<close>, counted from 0. Row \<open>k\<close> of the basis takes the calls
  \<open>k * dm, ..., k * dm + dm - 1\<close> for dimension \<open>dm\<close>.
\<close>

definition fhalf :: pyfloat where
  "fhalf = Fin False (2 ^ 52) (- 53)"

definition gen_projections :: "(int \<Rightarrow> nat \<Rightarrow> pyfloat) \<Rightarrow> nat \<Rightarrow> nat \<Rightarrow> int \<Rightarrow> pyfloat list list" where
  "gen_projections rng dm n seed =
     map (\<lambda>k. map (\<lambda>i. if flt (rng seed (k * dm + i)) fhalf then fone else fminus_one) [0..<dm])
       [0..<n]"

definition sign_signature :: "pyfloat list \<Rightarrow> pyfloat list list \<Rightarrow> nat list" where
  "sign_signature v R =
     map (\<lambda>r. let s = foldl (\<lambda>s (xi, ri). fadd s (fmul xi ri)) (fzero False) (zip v r)
               in if fge s (fzero False) then 1 else 0) R"

text \<open>\<open>os.path.basename\<close>: what follows the last slash.\<close>

definition basename :: "string \<Rightarrow> string" where
  "basename p = rev (takeWhile (\<lambda>c. c \<noteq> CHR ''/'') (rev p))"

subsection \<open>main: the ingestion loop\<close>

text \<open>
  \<open>stream_glyphs\<close> reads and parses the files; the stream it yields is the input here, each
  file as its path and its records in order.
\<close>

definition stream_glyphs :: "string \<times> glyph list \<Rightarrow> (glyph \<times> string) list" where
  "stream_glyphs f = map (\<lambda>g. (g, fst f)) (snd f)"

type_synonym entry = "string \<times> string \<times> pyfloat list \<times> pyfloat list"

record scan_state =
  exact_index :: "(string \<times> (string \<times> string) list) list"
  sig_buckets :: "(nat list \<times> entry list) list"
  dims :: "nat option"
  basis :: "pyfloat list list option"
  total :: nat

definition init_state :: scan_state where
  "init_state = \<lparr>exact_index = [], sig_buckets = [], dims = None, basis = None, total = 0\<rparr>"

text \<open>
  \<open>d.setdefault(k, []).append(x)\<close> on a dict, which keeps its keys in insertion order:
  an association list with one pair per key.
\<close>

fun setdefault_append :: "'k \<Rightarrow> 'v \<Rightarrow> ('k \<times> 'v list) list \<Rightarrow> ('k \<times> 'v list) list" where
  "setdefault_append k x [] = [(k, [x])]"
| "setdefault_append k x ((k', xs) # d) =
     (if k' = k then (k', xs @ [x]) # d else (k', xs) # setdefault_append k x d)"

text \<open>
  The body of the loop for one record. \<open>Inr\<close> is the state after the record (unchanged where
  the source says \<open>continue\<close>), \<open>Inl\<close> an exception that leaves \<open>main\<close>.
\<close>

fun process_glyph ::
  "(string \<Rightarrow> string) \<Rightarrow> (int \<Rightarrow> nat \<Rightarrow> pyfloat) \<Rightarrow> scan_state \<Rightarrow> glyph \<times> string \<Rightarrow> py_error + scan_state" where
  "process_glyph sha256 rng st (g, src) =
     (case (g_id g, g_vec g) of
        (Some gid, JArr v) \<Rightarrow>
          if gid = [] then Inr st
          else if dims st \<noteq> None \<and> dims st \<noteq> Some (length v) then Inr st
          else
            let st1 = (if dims st = None
                       then st\<lparr>dims := Some (length v),
                               basis := Some (gen_projections rng (length v) N_PROJ 47)\<rparr>
                       else st)
            in (case collect py_float v of
                  Inl err \<Rightarrow> Inr st1
                | Inr v_raw \<Rightarrow>
                    (case round_vec v_raw PREC of
                       Inl err \<Rightarrow> Inl err
                     | Inr v_r \<Rightarrow>
                         (case basis st1 of
                            None \<Rightarrow> Inl TypeError
                          | Some R \<Rightarrow>
                              Inr (st1\<lparr>exact_index :=
                                          setdefault_append (hash_vec sha256 v_r)
                                            (gid, basename src) (exact_index st1),
                                        sig_buckets :=
                                          setdefault_append (sign_signature v_raw R)
                                            (gid, basename src, v_r, v_raw) (sig_buckets st1),
                                        total := total st1 + 1\<rparr>))))
      | _ \<Rightarrow> Inr st)"

declare process_glyph.simps [simp del]

fun ingest ::
  "(string \<Rightarrow> string) \<Rightarrow> (int \<Rightarrow> nat \<Rightarrow> pyfloat) \<Rightarrow> scan_state \<Rightarrow> (glyph \<times> string) list \<Rightarrow> py_error + scan_state" where
  "ingest sha256 rng st [] = Inr st"
| "ingest sha256 rng st (gs # rest) =
     (case process_glyph sha256 rng st gs of
        Inl err \<Rightarrow> Inl err
      | Inr st' \<Rightarrow> ingest sha256 rng st' rest)"

subsection \<open>main: the two reports\<close>

definition exact_clusters :: "scan_state \<Rightarrow> (string \<times> string) list list" where
  "exact_clusters st = filter (\<lambda>lst. 1 < length lst) (map snd (exact_index st))"

text \<open>A reported near-clone: both members with their files, and the cosine.\<close>

type_synonym near_pair = "(string \<times> string) \<times> (string \<times> string) \<times> pyfloat"

text \<open>
  The loop over \<open>j\<close> for one \<open>i\<close>: the entry \<open>ei\<close> against the entries after it, threading
  \<open>seen_pairs\<close> and the pairs printed so far.
\<close>

fun scan_row ::
  "entry \<Rightarrow> entry list \<Rightarrow> (string \<times> string) set \<times> near_pair list \<Rightarrow>
     py_error + (string \<times> string) set \<times> near_pair list" where
  "scan_row ei [] acc = Inr acc"
| "scan_row ei (ej # rest) acc =
     (case (ei, ej, acc) of
        ((gid_i, src_i, vri, vi), (gid_j, src_j, vrj, vj), (seen_pairs, found)) \<Rightarrow>
          if (gid_i, gid_j) \<in> seen_pairs then scan_row ei rest acc
          else case cos_vec vi vj of
            Inl err \<Rightarrow> Inl err
          | Inr c \<Rightarrow>
              scan_row ei rest
                (insert (gid_i, gid_j) seen_pairs,
                 if fge c NEAR_THRESH then found @ [((gid_i, src_i), (gid_j, src_j), c)]
                 else found))"

text \<open>The loop over \<open>i\<close> within one bucket.\<close>

fun scan_bucket ::
  "entry list \<Rightarrow> (string \<times> string) set \<times> near_pair list \<Rightarrow>
     py_error + (string \<times> string) set \<times> near_pair list" where
  "scan_bucket [] acc = Inr acc"
| "scan_bucket (ei # rest) acc =
     (case scan_row ei rest acc of
        Inl err \<Rightarrow> Inl err
      | Inr acc' \<Rightarrow> scan_bucket rest acc')"

text \<open>The loop over the buckets, in the order of their first insertion.\<close>

fun scan_buckets ::
  "(nat list \<times> entry list) list \<Rightarrow> (string \<times> string) set \<times> near_pair list \<Rightarrow>
     py_error + (string \<times> string) set \<times> near_pair list" where
  "scan_buckets [] acc = Inr acc"
| "scan_buckets ((sig, entries) # rest) acc =
     (if length entries < 2 then scan_buckets rest acc
      else case scan_bucket entries acc of
        Inl err \<Rightarrow> Inl err
      | Inr acc' \<Rightarrow> scan_buckets rest acc')"

text \<open>What \<open>main\<close> prints, as data: the count line, the exact clusters, the near-clones.\<close>

record report =
  scanned :: nat
  n_files :: nat
  exact :: "(string \<times> string) list list"
  near :: "near_pair list"

definition main ::
  "(string \<Rightarrow> string) \<Rightarrow> (int \<Rightarrow> nat \<Rightarrow> pyfloat) \<Rightarrow> (string \<times> glyph list) list \<Rightarrow> py_error + report" where
  "main sha256 rng files =
     (case ingest sha256 rng init_state (concat (map stream_glyphs files)) of
        Inl err \<Rightarrow> Inl err
      | Inr st \<Rightarrow>
          (case scan_buckets (sig_buckets st) ({}, []) of
             Inl err \<Rightarrow> Inl err
           | Inr (seen_pairs, found) \<Rightarrow>
               Inr \<lparr>scanned = total st, n_files = length files,
                    exact = exact_clusters st, near = found\<rparr>))"

section \<open>Notions used in the statements\<close>

subsection \<open>Shapes of floats\<close>

text \<open>
  \<open>sq_ok\<close>: not negative, and with the exponent of a rounded result, as every partial sum of
  squares is. \<open>norm_ok\<close>: no finite value below \<open>2^-537\<close> in magnitude, as every result of
  \<open>norm_vec\<close> is.
\<close>

definition sq_ok :: "pyfloat \<Rightarrow> bool" where
  "sq_ok x = (case x of NaN \<Rightarrow> True | Inf s \<Rightarrow> \<not> s | Fin s m e \<Rightarrow> \<not> s \<and> - 1074 \<le> e)"

definition norm_ok :: "pyfloat \<Rightarrow> bool" where
  "norm_ok x =
     (case x of NaN \<Rightarrow> True | Inf s \<Rightarrow> True | Fin s m e \<Rightarrow> 2 powi (- 537) \<le> real m * 2 powi e)"

subsection \<open>The pairs the scanner compares\<close>

text \<open>
  \<open>compared_pairs\<close> lists the pairs \<open>(entries[i], entries[j])\<close>, \<open>i < j\<close>, of the nested
  loops in the order in which they are reached, bucket after bucket. \<open>pair_key\<close> is the
  key looked up in \<open>seen_pairs\<close>, \<open>pair_cos\<close> the cosine computed for a pair, and
  \<open>report_of\<close> the line printed for it. \<open>new_reports seen ps\<close> are the lines printed while
  the pairs \<open>ps\<close> are visited, starting with \<open>seen_pairs = seen\<close>.
\<close>

definition pair_key :: "entry \<times> entry \<Rightarrow> string \<times> string" where
  "pair_key p = (fst (fst p), fst (snd p))"

definition raw_vec :: "entry \<Rightarrow> pyfloat list" where
  "raw_vec e = snd (snd (snd e))"

definition pair_cos :: "entry \<times> entry \<Rightarrow> pyfloat" where
  "pair_cos p = projr (cos_vec (raw_vec (fst p)) (raw_vec (snd p)))"

definition member_of :: "entry \<Rightarrow> string \<times> string" where
  "member_of e = (fst e, fst (snd e))"

definition report_of :: "entry \<times> entry \<Rightarrow> near_pair" where
  "report_of p = (member_of (fst p), member_of (snd p), pair_cos p)"

definition report_key :: "near_pair \<Rightarrow> string \<times> string" where
  "report_key r = (fst (fst r), fst (fst (snd r)))"

fun bucket_pairs :: "entry list \<Rightarrow> (entry \<times> entry) list" where
  "bucket_pairs [] = []"
| "bucket_pairs (e # rest) = map (Pair e) rest @ bucket_pairs rest"

definition compared_pairs :: "(nat list \<times> entry list) list \<Rightarrow> (entry \<times> entry) list" where
  "compared_pairs bs = concat (map (\<lambda>b. bucket_pairs (snd b)) bs)"

fun new_reports :: "(string \<times> string) set \<Rightarrow> (entry \<times> entry) list \<Rightarrow> near_pair list" where
  "new_reports seen [] = []"
| "new_reports seen (p # ps) =
     (if pair_key p \<in> seen then new_reports seen ps
      else (if fge (pair_cos p) NEAR_THRESH then [report_of p] else [])
           @ new_reports (insert (pair_key p) seen) ps)"

subsection \<open>The first check of the loop\<close>

text \<open>
  \<open>passes_gate g\<close>: the record is not skipped by
  \<open>if not gid or not isinstance(v, list): continue\<close>. \<open>vec_items g\<close> are the elements of its
  list.
\<close>

definition passes_gate :: "glyph \<Rightarrow> bool" where
  "passes_gate g = (\<exists>gid v. g_id g = Some gid \<and> gid \<noteq> [] \<and> g_vec g = JArr v)"

definition vec_items :: "glyph \<Rightarrow> json list" where
  "vec_items g = (case g_vec g of JArr v \<Rightarrow> v | _ \<Rightarrow> [])"

subsection \<open>Runs on empty vectors\<close>

text \<open>
  \<open>empty_members stream\<close>: id and file of the records of \<open>stream\<close> that pass the first check
  with an empty list. \<open>empty_state sha256 ms\<close>: the state in which exactly the members \<open>ms\<close>
  have been accepted, all with the empty vector.
\<close>

definition empty_members :: "(glyph \<times> string) list \<Rightarrow> (string \<times> string) list" where
  "empty_members stream =
     map (\<lambda>gs. (the (g_id (fst gs)), basename (snd gs)))
       (filter (\<lambda>gs. passes_gate (fst gs) \<and> vec_items (fst gs) = []) stream)"

definition empty_state :: "(string \<Rightarrow> string) \<Rightarrow> (string \<times> string) list \<Rightarrow> scan_state" where
  "empty_state sha256 ms =
     \<lparr>exact_index = [(sha256 [], ms)],
      sig_buckets = [(replicate N_PROJ 1, map (\<lambda>m. (fst m, snd m, [], [])) ms)],
      dims = Some 0, basis = Some (replicate N_PROJ []), total = length ms\<rparr>"

subsection \<open>Stand-ins for the library functions\<close>

text \<open>
  The theorems hold for every \<open>sha256\<close> and every \<open>rng\<close>. Where an instance has to be
  evaluated, the identity stands for the hash and a generator that always returns \<open>0.0\<close>
  for \<open>random.Random\<close>.
\<close>

definition sample_sha :: "string \<Rightarrow> string" where
  "sample_sha s = s"

definition sample_rng :: "int \<Rightarrow> nat \<Rightarrow> pyfloat" where
  "sample_rng seed i = fzero False"

definition mk_glyph :: "string \<Rightarrow> json list \<Rightarrow> glyph" where
  "mk_glyph gid v = \<lparr>g_id = Some gid, g_vec = JArr v\<rparr>"

subsection \<open>Sample entries\<close>

text \<open>
  Entries as the ingestion loop stores them for records with the vector \<open>[1.0]\<close>: ids
  \<open>a\<close> and \<open>b\<close>, each once in \<open>f1.json\<close> and once in \<open>f2.json\<close>.
\<close>

definition entry_a1 :: entry where
  "entry_a1 = (''a'', ''f1.json'', [fone], [fone])"

definition entry_b1 :: entry where
  "entry_b1 = (''b'', ''f1.json'', [fone], [fone])"

definition entry_a2 :: entry where
  "entry_a2 = (''a'', ''f2.json'', [fone], [fone])"

definition entry_b2 :: entry where
  "entry_b2 = (''b'', ''f2.json'', [fone], [fone])"

section \<open>Properties\<close>

subsection \<open>Evaluating the float operations\<close>

lemma isqrt_loop_numeral:
  "isqrt_loop n (numeral k) r =
     isqrt_loop n (pred_numeral k)
       (if (r + 2 ^ pred_numeral k) * (r + 2 ^ pred_numeral k) \<le> n then r + 2 ^ pred_numeral k else r)"
  by (simp add: numeral_eq_Suc)

lemmas float_eval =
  fone_def fminus_one_def fhalf_def fzero_def rnd_scaled_def rnd_def ilog2_ratio_def ge_pow2_def
  round_half_even_def ndigits.simps aligned_def align_exp_def is_zero_def fge_def isqrt_def
  isqrt_loop_numeral float_of_int_def

subsection \<open>Rounding never reaches zero from above the smallest float\<close>

lemma round_half_even_ge: "n div d \<le> round_half_even n d"
  by (simp add: round_half_even_def Let_def)

lemma div_ge_of_real:
  assumes "0 < d" and "real k \<le> real n / real d"
  shows "k \<le> n div d"
proof -
  from assms have "real k * real d \<le> real n"
    by (simp add: pos_le_divide_eq)
  then have "k * d \<le> n"
    by (metis of_nat_le_iff of_nat_mult)
  with assms(1) show ?thesis
    by (simp add: less_eq_div_iff_mult_less_eq)
qed

lemma ndigits_nonneg: "0 \<le> ndigits b n"
  by (induction b n rule: ndigits.induct) (subst ndigits.simps, auto)

lemma ndigits_pos: "0 < n \<Longrightarrow> 0 < ndigits 2 n"
  using ndigits_nonneg [of 2 "n div 2"] by (subst ndigits.simps) simp

lemma ndigits_bounds:
  "0 < n \<Longrightarrow> 2 ^ (nat (ndigits 2 n) - 1) \<le> n \<and> n < 2 ^ nat (ndigits 2 n)"
proof (induction "2::nat" n rule: ndigits.induct)
  case (1 n)
  show ?case
  proof (cases "n div 2 = 0")
    case True
    with 1(2) have "n = 1" by (simp add: div_eq_0_iff) 
    then show ?thesis by (simp add: ndigits.simps)
  next
    case False
    then have pos: "0 < n div 2" by simp
    define d where "d = nat (ndigits 2 (n div 2))"
    from 1(1) 1(2) pos
    have ih: "2 ^ (d - 1) \<le> n div 2" "n div 2 < 2 ^ d"
      by (auto simp: d_def)
    have dpos: "0 < d" using ndigits_pos [OF pos] by (simp add: d_def)
    have eq: "ndigits 2 n = ndigits 2 (n div 2) + 1"
      using 1(2) by (subst ndigits.simps) simp
    have n2: "nat (ndigits 2 n) = Suc d"
      using dpos eq by (simp add: nat_add_distrib d_def)
    have p: "(2::nat) ^ d = 2 * 2 ^ (d - 1)"
      using dpos by (cases d) auto
    have "2 ^ d \<le> n" using ih(1) p by linarith
    moreover have "n < 2 * 2 ^ d" using ih(2) by linarith
    ultimately show ?thesis unfolding n2 by simp
  qed
qed


lemma powi_nonneg: "0 \<le> k \<Longrightarrow> (2::real) powi k = 2 ^ nat k"
  by (simp add: power_int_def)

lemma powi_neg: "k < 0 \<Longrightarrow> (2::real) powi k = 1 / 2 ^ nat (- k)"
  by (simp add: power_int_def field_simps)

lemma ge_pow2_real:
  assumes "ge_pow2 num den k" and "0 < den"
  shows "2 powi k \<le> real num / real den"
proof (cases "0 \<le> k")
  case True
  with assms(1) have "den * 2 ^ nat k \<le> num" by (simp add: ge_pow2_def)
  then have "real (den * 2 ^ nat k) \<le> real num" by (simp only: of_nat_le_iff)
  then have "real den * 2 ^ nat k \<le> real num" by simp
  with assms(2) have "2 ^ nat k \<le> real num / real den"
    by (simp add: pos_le_divide_eq mult.commute)
  with True show ?thesis by (simp add: powi_nonneg)
next
  case False
  with assms(1) have "den \<le> num * 2 ^ nat (- k)" by (simp add: ge_pow2_def)
  then have "real den \<le> real (num * 2 ^ nat (- k))" by (simp only: of_nat_le_iff)
  then have "real den \<le> real num * 2 ^ nat (- k)" by simp
  with assms(2) have "1 / 2 ^ nat (- k) \<le> real num / real den"
    by (simp add: field_simps)
  with False show ?thesis by (simp add: powi_neg)
qed

lemma ilog2_ratio_le:
  assumes "0 < num" and "0 < den"
  shows "2 powi (ilog2_ratio num den) \<le> real num / real den"
proof (cases "ge_pow2 num den (ndigits 2 num - ndigits 2 den)")
  case True
  then show ?thesis using assms by (simp add: ilog2_ratio_def ge_pow2_real)
next
  case False
  define a where "a = nat (ndigits 2 num)"
  define b where "b = nat (ndigits 2 den)"
  have apos: "0 < a" using ndigits_pos [OF assms(1)] by (simp add: a_def)
  have an: "ndigits 2 num = int a" using ndigits_nonneg [of 2 num] by (simp add: a_def)
  have bn: "ndigits 2 den = int b" using ndigits_nonneg [of 2 den] by (simp add: b_def)
  have lo: "2 ^ (a - 1) \<le> num" using ndigits_bounds [OF assms(1)] by (simp add: a_def)
  have hi: "den < 2 ^ b" using ndigits_bounds [OF assms(2)] by (simp add: b_def)
  have lo': "(2::real) ^ (a - 1) \<le> real num"
    using lo by (metis of_nat_le_iff of_nat_numeral of_nat_power)
  have hi': "real den \<le> 2 ^ b"
    using hi by (metis less_imp_le of_nat_le_iff of_nat_numeral of_nat_power)
  have "ilog2_ratio num den = int (a - 1) - int b"
    using False apos by (simp add: ilog2_ratio_def an bn of_nat_diff)
  then have "2 powi (ilog2_ratio num den) = (2::real) ^ (a - 1) / 2 ^ b"
    by (simp add: power_int_diff)
  also have "\<dots> \<le> real num / real den"
    using lo' hi' assms by (intro frac_le) auto
  finally show ?thesis .
qed

lemma rnd_lower:
  assumes "0 < num" and "0 < den" and "- 1074 \<le> k" and "2 powi k \<le> real num / real den"
  shows "rnd s num den = Inf s \<or> (\<exists>m e. rnd s num den = Fin s m e \<and> 2 powi k \<le> real m * 2 powi e)"
proof -
  define L where "L = ilog2_ratio num den"
  define e where "e = max (L - 52) (- 1074)"
  define m where "m = (if 0 \<le> e then round_half_even num (den * 2 ^ nat e)
                       else round_half_even (num * 2 ^ nat (- e)) den)"
  define x where "x = real num / real den / 2 powi e"
  have rnd_eq: "rnd s num den =
      (if 971 < (if m = 2 ^ 53 then e + 1 else e) then Inf s
       else Fin s (if m = 2 ^ 53 then 2 ^ 52 else m) (if m = 2 ^ 53 then e + 1 else e))"
  proof -
    have nz: "num \<noteq> 0" using assms(1) by simp
    show ?thesis
      unfolding rnd_def L_def e_def m_def Let_def by (simp only: nz if_False)
  qed
  have fl: "j \<le> m" if "real j \<le> x" for j
  proof (cases "0 \<le> e")
    case True
    have "x = real num / real (den * 2 ^ nat e)"
      using True by (simp add: x_def powi_nonneg)
    with that have "j \<le> num div (den * 2 ^ nat e)"
      using assms(2) by (intro div_ge_of_real) auto
    also have "\<dots> \<le> m" using True by (simp add: m_def round_half_even_ge)
    finally show ?thesis .
  next
    case False
    have "x = real (num * 2 ^ nat (- e)) / real den"
      using False by (simp add: x_def powi_neg)
    with that have "j \<le> (num * 2 ^ nat (- e)) div den"
      using assms(2) by (intro div_ge_of_real) auto
    also have "\<dots> \<le> m" using False by (simp add: m_def round_half_even_ge)
    finally show ?thesis .
  qed
  have key: "2 powi k \<le> real m * 2 powi e"
  proof (cases "e \<le> k")
    case True
    have "real (2 ^ nat (k - e)) = 2 powi (k - e)"
      using True by (simp add: powi_nonneg)
    also have "\<dots> = 2 powi k / 2 powi e" by (simp add: power_int_diff)
    also have "\<dots> \<le> x" unfolding x_def using assms(4) by (intro divide_right_mono) auto
    finally have "2 ^ nat (k - e) \<le> m" by (rule fl)
    then have "real (2 ^ nat (k - e)) \<le> real m" by (simp only: of_nat_le_iff)
    then have "2 powi (k - e) \<le> real m" using True by (simp add: powi_nonneg)
    then have "2 powi (k - e) * 2 powi e \<le> real m * 2 powi e"
      by (simp add: mult_right_mono)
    then show ?thesis by (simp add: power_int_add [symmetric])
  next
    case False
    with assms(3) have eL: "e = L - 52" by (simp add: e_def max_def split: if_splits)
    have "real (2 ^ 52) = 2 powi (L - e)" using eL by simp
    also have "\<dots> = 2 powi L / 2 powi e" by (simp add: power_int_diff)
    also have "\<dots> \<le> x"
      unfolding x_def L_def using ilog2_ratio_le [OF assms(1,2)] by (intro divide_right_mono) auto
    finally have "2 ^ 52 \<le> m" by (rule fl)
    then have "1 \<le> real m" by simp
    then have "1 * 2 powi e \<le> real m * 2 powi e"
      by (intro mult_right_mono) auto
    moreover have "(2::real) powi k \<le> 2 powi e"
      using False by (intro power_int_increasing) auto
    ultimately show ?thesis by linarith
  qed
  show ?thesis
  proof (cases "m = 2 ^ 53")
    case True
    have "real (2 ^ 52) * 2 powi (e + 1) = real m * 2 powi e"
      using True by (simp add: power_int_add)
    with key True show ?thesis by (auto simp: rnd_eq)
  next
    case False
    with key show ?thesis by (auto simp: rnd_eq)
  qed
qed


lemma rnd_shape: "rnd s num den = Inf s \<or> (\<exists>m e. rnd s num den = Fin s m e \<and> - 1074 \<le> e)"
proof (cases "num = 0")
  case True
  then show ?thesis by (simp add: rnd_def fzero_def)
next
  case False
  define e where "e = max (ilog2_ratio num den - 52) (- 1074)"
  define m where "m = (if 0 \<le> e then round_half_even num (den * 2 ^ nat e)
                       else round_half_even (num * 2 ^ nat (- e)) den)"
  have "rnd s num den =
      (if 971 < (if m = 2 ^ 53 then e + 1 else e) then Inf s
       else Fin s (if m = 2 ^ 53 then 2 ^ 52 else m) (if m = 2 ^ 53 then e + 1 else e))"
    unfolding rnd_def e_def m_def Let_def by (simp only: False if_False)
  moreover have "- 1074 \<le> e" by (simp add: e_def)
  ultimately show ?thesis by auto
qed

lemma rnd_scaled_shape:
  "rnd_scaled s n e = Inf s \<or> (\<exists>m e'. rnd_scaled s n e = Fin s m e' \<and> - 1074 \<le> e')"
  using rnd_shape by (simp add: rnd_scaled_def)

lemma rnd_scaled_lower:
  assumes "0 < n" and "- 1074 \<le> k" and "2 powi k \<le> real n * 2 powi e"
  shows "rnd_scaled s n e = Inf s \<or>
         (\<exists>m e'. rnd_scaled s n e = Fin s m e' \<and> 2 powi k \<le> real m * 2 powi e')"
proof (cases "0 \<le> e")
  case True
  have "2 powi k \<le> real (n * 2 ^ nat e) / real 1"
    using assms(3) True by (simp add: powi_nonneg)
  with assms(1,2) show ?thesis
    using True rnd_lower [of "n * 2 ^ nat e" 1 k s] by (simp add: rnd_scaled_def)
next
  case False
  have "2 powi k \<le> real n / real (2 ^ nat (- e))"
    using assms(3) False by (simp add: powi_neg)
  with assms(1,2) show ?thesis
    using False rnd_lower [of n "2 ^ nat (- e)" k s] by (simp add: rnd_scaled_def)
qed

lemma isqrt_loop_upper:
  "n < (r + 2 ^ k) * (r + 2 ^ k) \<Longrightarrow> n < (isqrt_loop n k r + 1) * (isqrt_loop n k r + 1)"
proof (induction k arbitrary: r)
  case 0
  then show ?case by simp
next
  case (Suc k)
  show ?case
  proof (cases "(r + 2 ^ k) * (r + 2 ^ k) \<le> n")
    case True
    have "r + 2 ^ k + 2 ^ k = r + 2 ^ Suc k" by simp
    with Suc.prems have "n < (r + 2 ^ k + 2 ^ k) * (r + 2 ^ k + 2 ^ k)" by (simp only:)
    from Suc.IH [OF this] True show ?thesis by simp
  next
    case False
    then have "n < (r + 2 ^ k) * (r + 2 ^ k)" by simp
    from Suc.IH [OF this] False show ?thesis by simp
  qed
qed

lemma isqrt_upper: "n < (isqrt n + 1) * (isqrt n + 1)"
proof -
  define d where "d = nat (ndigits 2 n)"
  have "n < 2 ^ d"
  proof (cases "n = 0")
    case True
    then show ?thesis by simp
  next
    case False
    then show ?thesis using ndigits_bounds [of n] by (simp add: d_def)
  qed
  also have "(2::nat) ^ d \<le> 2 ^ d * 2 ^ d" by simp
  finally have "n < (0 + 2 ^ d) * (0 + 2 ^ d)" by simp
  from isqrt_loop_upper [OF this] show ?thesis by (simp add: isqrt_def d_def)
qed

lemma isqrt_ge: 
  assumes "2 ^ 110 \<le> n"
  shows "2 ^ 55 \<le> isqrt n"
proof (rule ccontr)
  assume "\<not> 2 ^ 55 \<le> isqrt n"
  then have "isqrt n + 1 \<le> 2 ^ 55" by simp
  then have "(isqrt n + 1) * (isqrt n + 1) \<le> 2 ^ 55 * 2 ^ 55" using mult_le_mono by blast
  also have "(2::nat) ^ 55 * 2 ^ 55 = 2 ^ 110" by simp
  finally show False using isqrt_upper [of n] assms by linarith
qed

lemma fsqrt_lower:
  assumes "0 < m" and "- 1074 \<le> e"
  shows "\<exists>y. fsqrt (Fin False m e) = Inr y \<and>
           (y = Inf False \<or> (\<exists>m' e'. y = Fin False m' e' \<and> 2 powi (- 537) \<le> real m' * 2 powi e'))"
proof -
  define m2 where "m2 = (if even e then m else 2 * m)"
  define e2 where "e2 = (if even e then e else e - 1)"
  define r where "r = isqrt (m2 * 2 ^ 110)"
  define n where "n = 2 * r + (if r * r = m2 * 2 ^ 110 then 0 else 1)"
  have eq: "fsqrt (Fin False m e) = Inr (rnd_scaled False n (e2 div 2 - 56))"
    using assms(1) by (simp add: Let_def m2_def e2_def r_def n_def)
  have "1 \<le> m2" using assms(1) by (simp add: m2_def)
  then have "1 * 2 ^ 110 \<le> m2 * 2 ^ 110" by (rule mult_le_mono1)
  then have "2 ^ 55 \<le> r" unfolding r_def by (intro isqrt_ge) simp
  then have nge: "2 ^ 56 \<le> n" by (simp add: n_def)
  then have npos: "0 < n" by (metis gr0I not_numeral_le_zero power_eq_0_iff zero_neq_numeral le_zero_eq)
  have e2ge: "- 1074 \<le> e2" using assms(2) by (cases "e = - 1074") (auto simp: e2_def)
  then have dge: "- 537 \<le> e2 div 2" by linarith
  have "(2::real) powi (- 537) \<le> 2 powi (e2 div 2)"
    using dge by (intro power_int_increasing) auto
  also have "\<dots> = 2 ^ 56 * 2 powi (e2 div 2 - 56)"
    by (simp add: power_int_diff)
  also have "\<dots> \<le> real n * 2 powi (e2 div 2 - 56)"
  proof (intro mult_right_mono)
    from nge have "real (2 ^ 56) \<le> real n" by (simp only: of_nat_le_iff)
    then show "2 ^ 56 \<le> real n" by simp
  qed auto
  finally have "2 powi (- 537) \<le> real n * 2 powi (e2 div 2 - 56)" .
  then have "rnd_scaled False n (e2 div 2 - 56) = Inf False \<or>
      (\<exists>m' e'. rnd_scaled False n (e2 div 2 - 56) = Fin False m' e' \<and>
         2 powi (- 537) \<le> real m' * 2 powi e')"
    using npos by (intro rnd_scaled_lower) auto
  then show ?thesis unfolding eq by blast
qed


lemma rnd_scaled_ok: "sq_ok (rnd_scaled False n e)"
  using rnd_scaled_shape [of False n e] by (auto simp: sq_ok_def)

lemma fmul_self_ok: "sq_ok (fmul x x)"
  by (cases x) (simp_all add: rnd_scaled_ok, simp_all add: sq_ok_def)

lemma fadd_ok:
  assumes "sq_ok x" and "sq_ok y"
  shows "sq_ok (fadd x y)"
proof (cases x)
  case (Fin s m e)
  note x = this
  show ?thesis
  proof (cases y)
    case (Fin t n f)
    from assms x Fin have st: "\<not> s" "\<not> t" by (auto simp: sq_ok_def)
    then have "0 \<le> aligned (align_exp m e n f) s m e + aligned (align_exp m e n f) t n f"
      by (simp add: aligned_def)
    then show ?thesis
      using st by (simp add: x Fin Let_def rnd_scaled_ok) (simp add: sq_ok_def fzero_def)
  next
    case (Inf t)
    with assms x show ?thesis by (simp add: sq_ok_def)
  next
    case NaN
    with x show ?thesis by (simp add: sq_ok_def)
  qed
next
  case (Inf s)
  with assms show ?thesis by (cases y) (auto simp: sq_ok_def)
next
  case NaN
  then show ?thesis by (simp add: sq_ok_def)
qed

lemma foldl_fadd_ok: "sq_ok acc \<Longrightarrow> \<forall>x \<in> set xs. sq_ok x \<Longrightarrow> sq_ok (foldl fadd acc xs)"
  by (induction xs arbitrary: acc) (auto simp: fadd_ok)

lemma sum_squares_ok: "sq_ok (py_sum (map (\<lambda>x. fmul x x) v))"
  unfolding py_sum_def
proof (rule foldl_fadd_ok)
  show "sq_ok (fzero False)" by (simp add: sq_ok_def fzero_def)
  show "\<forall>x \<in> set (map (\<lambda>x. fmul x x) v). sq_ok x" by (simp add: fmul_self_ok)
qed

lemma powi_pos: "0 < (2::real) powi k"
  by simp

lemma norm_ok_fone: "norm_ok fone"
proof -
  have "(2::real) powi (- 537) \<le> 2 powi 0" by (intro power_int_increasing) auto
  also have "\<dots> = real (2 ^ 52) * 2 powi (- 52)" by (simp add: power_int_minus)
  finally show ?thesis by (simp add: norm_ok_def fone_def)
qed

lemma norm_ok_nonzero: "norm_ok x \<Longrightarrow> \<not> is_zero x"
proof (cases x)
  case (Fin s m e)
  assume "norm_ok x"
  with Fin have "2 powi (- 537) \<le> real m * 2 powi e" by (simp add: norm_ok_def)
  with powi_pos [of "- 537"] have "0 < real m * 2 powi e" by linarith
  then have "m \<noteq> 0" by (simp add: zero_less_mult_iff)
  with Fin show ?thesis by (simp add: is_zero_def)
qed (auto simp: is_zero_def)

lemma norm_vec_total: "\<exists>n. norm_vec v = Inr n \<and> norm_ok n"
proof -
  define S where "S = py_sum (map (\<lambda>x. fmul x x) v)"
  have ok: "sq_ok S" unfolding S_def by (rule sum_squares_ok)
  have "\<exists>r. fsqrt S = Inr r \<and> (is_zero r \<or> norm_ok r)"
  proof (cases S)
    case (Fin s m e)
    with ok have s: "\<not> s" and e: "- 1074 \<le> e" by (auto simp: sq_ok_def)
    show ?thesis
    proof (cases "m = 0")
      case True
      with Fin show ?thesis by (simp add: is_zero_def fzero_def)
    next
      case False
      then have "0 < m" by simp
      from fsqrt_lower [OF this e] Fin s show ?thesis
        by (auto simp: norm_ok_def)
    qed
  next
    case (Inf s)
    with ok show ?thesis by (simp add: sq_ok_def norm_ok_def)
  next
    case NaN
    then show ?thesis by (simp add: norm_ok_def)
  qed
  then obtain r where r: "fsqrt S = Inr r" "is_zero r \<or> norm_ok r" by blast
  show ?thesis
  proof (cases "is_zero r")
    case True
    with r show ?thesis by (simp add: norm_vec_def S_def [symmetric] norm_ok_fone)
  next
    case False
    with r show ?thesis by (simp add: norm_vec_def S_def [symmetric])
  qed
qed

lemma fmul_norm_nonzero:
  assumes "norm_ok a" and "norm_ok b"
  shows "\<not> is_zero (fmul a b)"
proof (cases a)
  case (Fin s m e)
  note a = this
  show ?thesis
  proof (cases b)
    case (Fin t n f)
    from assms a Fin have va: "2 powi (- 537) \<le> real m * 2 powi e"
      and vb: "2 powi (- 537) \<le> real n * 2 powi f"
      by (auto simp: norm_ok_def)
    have "\<not> is_zero a" "\<not> is_zero b"
      using assms by (auto dest: norm_ok_nonzero)
    then have "m \<noteq> 0" "n \<noteq> 0"
      by (simp_all add: a Fin is_zero_def)
    then have pos: "0 < m * n" by simp
    have "(2::real) powi (- 1074) = 2 powi (- 537) * 2 powi (- 537)"
      by (simp add: power_int_add [symmetric])
    also have "\<dots> \<le> (real m * 2 powi e) * (real n * 2 powi f)"
      using va vb by (intro mult_mono) auto
    also have "\<dots> = real (m * n) * 2 powi (e + f)"
      by (simp add: power_int_add)
    finally have "2 powi (- 1074) \<le> real (m * n) * 2 powi (e + f)" .
    then have "rnd_scaled (s \<noteq> t) (m * n) (e + f) = Inf (s \<noteq> t) \<or>
        (\<exists>m' e'. rnd_scaled (s \<noteq> t) (m * n) (e + f) = Fin (s \<noteq> t) m' e' \<and>
           2 powi (- 1074) \<le> real m' * 2 powi e')"
      using pos by (intro rnd_scaled_lower) auto
    then show ?thesis
    proof
      assume "rnd_scaled (s \<noteq> t) (m * n) (e + f) = Inf (s \<noteq> t)"
      then show ?thesis by (simp add: a Fin is_zero_def)
    next
      assume "\<exists>m' e'. rnd_scaled (s \<noteq> t) (m * n) (e + f) = Fin (s \<noteq> t) m' e' \<and>
           2 powi (- 1074) \<le> real m' * 2 powi e'"
      then obtain m' e' where r: "rnd_scaled (s \<noteq> t) (m * n) (e + f) = Fin (s \<noteq> t) m' e'"
        and v: "2 powi (- 1074) \<le> real m' * 2 powi e'" by blast
      from v powi_pos [of "- 1074"] have "0 < real m' * 2 powi e'" by linarith
      then have "m' \<noteq> 0" by (simp add: zero_less_mult_iff)
      with r show ?thesis by (simp add: a Fin is_zero_def)
    qed
  next
    case (Inf t)
    with a show ?thesis by (simp add: is_zero_def)
  next
    case NaN
    with a show ?thesis by (simp add: is_zero_def)
  qed
next
  case (Inf s)
  then show ?thesis by (cases b) (auto simp: is_zero_def)
next
  case NaN
  then show ?thesis by (simp add: is_zero_def)
qed

lemma fdiv_total: "\<not> is_zero y \<Longrightarrow> \<exists>c. fdiv x y = Inr c"
  by (cases y; cases x) (auto simp: is_zero_def)

lemma cos_vec_total: "\<exists>c. cos_vec a b = Inr c"
proof -
  obtain na where na: "norm_vec a = Inr na" "norm_ok na" using norm_vec_total by blast
  obtain nb where nb: "norm_vec b = Inr nb" "norm_ok nb" using norm_vec_total by blast
  from fdiv_total [OF fmul_norm_nonzero [OF na(2) nb(2)]] na(1) nb(1)
  show ?thesis by (simp add: cos_vec_def Let_def)
qed

subsection \<open>The scanner as a pass over the compared pairs\<close>

lemma new_reports_append:
  "new_reports seen (xs @ ys) = new_reports seen xs @ new_reports (seen \<union> pair_key ` set xs) ys"
  by (induction xs arbitrary: seen) (auto simp: insert_absorb)

lemma scan_row_eq:
  "scan_row ei rest (seen, found) =
     Inr (seen \<union> pair_key ` set (map (Pair ei) rest), found @ new_reports seen (map (Pair ei) rest))"
proof (induction rest arbitrary: seen found)
  case Nil
  then show ?case by simp
next
  case (Cons ej rest)
  obtain gid_i src_i vri vi where ei: "ei = (gid_i, src_i, vri, vi)" by (cases ei) auto
  obtain gid_j src_j vrj vj where ej: "ej = (gid_j, src_j, vrj, vj)" by (cases ej) auto
  obtain c where c: "cos_vec vi vj = Inr c" using cos_vec_total by blast
  have k: "pair_key (ei, ej) = (gid_i, gid_j)" by (simp add: pair_key_def ei ej)
  have pc: "pair_cos (ei, ej) = c" by (simp add: pair_cos_def raw_vec_def ei ej c)
  have r: "report_of (ei, ej) = ((gid_i, src_i), (gid_j, src_j), c)"
    by (simp add: report_of_def member_of_def pc) (simp add: ei ej)
  show ?case
  proof (cases "(gid_i, gid_j) \<in> seen")
    case True
    have "scan_row ei (ej # rest) (seen, found) = scan_row ei rest (seen, found)"
      using True by (simp add: ei ej)
    then show ?thesis using True k by (simp add: Cons.IH insert_absorb)
  next
    case False
    have "scan_row ei (ej # rest) (seen, found) =
          scan_row ei rest (insert (gid_i, gid_j) seen,
            if fge c NEAR_THRESH then found @ [((gid_i, src_i), (gid_j, src_j), c)] else found)"
      using False by (simp add: ei ej c)
    then show ?thesis using False k pc r by (simp add: Cons.IH)
  qed
qed

lemma scan_bucket_eq:
  "scan_bucket es (seen, found) =
     Inr (seen \<union> pair_key ` set (bucket_pairs es), found @ new_reports seen (bucket_pairs es))"
proof (induction es arbitrary: seen found)
  case Nil
  then show ?case by simp
next
  case (Cons e es)
  show ?case
    by (simp add: scan_row_eq Cons.IH new_reports_append Un_assoc image_Un)
qed

lemma bucket_pairs_short: "length es < 2 \<Longrightarrow> bucket_pairs es = []"
  by (cases es; cases "tl es") auto

lemma scan_buckets_eq:
  "scan_buckets bs (seen, found) =
     Inr (seen \<union> pair_key ` set (compared_pairs bs), found @ new_reports seen (compared_pairs bs))"
proof (induction bs arbitrary: seen found)
  case Nil
  then show ?case by (simp add: compared_pairs_def)
next
  case (Cons b bs)
  obtain sig es where b: "b = (sig, es)" by (cases b) auto
  show ?case
  proof (cases "length es < 2")
    case True
    then show ?thesis
      using Cons.IH by (simp add: b compared_pairs_def bucket_pairs_short)
  next
    case False
    then show ?thesis
      using Cons.IH
      by (simp add: b scan_bucket_eq compared_pairs_def new_reports_append Un_assoc image_Un)
  qed
qed

lemma report_key_of: "report_key (report_of p) = pair_key p"
  by (simp add: report_key_def report_of_def member_of_def pair_key_def)

lemma new_reports_sound:
  "r \<in> set (new_reports seen ps) \<Longrightarrow>
     report_key r \<notin> seen \<and> (\<exists>p \<in> set ps. r = report_of p \<and> fge (pair_cos p) NEAR_THRESH)"
proof (induction ps arbitrary: seen)
  case Nil
  then show ?case by simp
next
  case (Cons p ps)
  have k: "report_key (report_of p) = pair_key p"
    by (simp add: report_key_def report_of_def member_of_def pair_key_def)
  from Cons.prems Cons.IH show ?case
    by (auto simp: k split: if_splits)
qed

lemma new_reports_distinct: "distinct (map report_key (new_reports seen ps))"
proof (induction ps arbitrary: seen)
  case Nil
  then show ?case by simp
next
  case (Cons p ps)
  have k: "report_key (report_of p) = pair_key p"
    by (simp add: report_key_def report_of_def member_of_def pair_key_def)
  have "pair_key p \<notin> report_key ` set (new_reports (insert (pair_key p) seen) ps)"
  proof
    assume "pair_key p \<in> report_key ` set (new_reports (insert (pair_key p) seen) ps)"
    then obtain r where r: "r \<in> set (new_reports (insert (pair_key p) seen) ps)"
      and rk: "report_key r = pair_key p" by auto
    from new_reports_sound [OF r] rk show False by simp
  qed
  with Cons.IH show ?case by (simp add: k)
qed

lemma new_reports_at:
  assumes "pair_key p \<notin> seen" and "pair_key p \<notin> pair_key ` set before"
  shows "report_of p \<in> set (new_reports seen (before @ p # after)) \<longleftrightarrow> fge (pair_cos p) NEAR_THRESH"
proof -
  have k: "report_key (report_of p) = pair_key p"
    by (simp add: report_key_def report_of_def member_of_def pair_key_def)
  have a: "report_of p \<notin> set (new_reports seen before)"
  proof
    assume "report_of p \<in> set (new_reports seen before)"
    from new_reports_sound [OF this] obtain q where "q \<in> set before" "report_of p = report_of q"
      by blast
    then have "pair_key p = pair_key q"
      by (metis report_key_of)
    with \<open>q \<in> set before\<close> assms(2) show False by auto
  qed
  have b: "report_of p \<notin> set (new_reports (insert (pair_key p) (seen \<union> pair_key ` set before)) after)"
    using new_reports_sound [of "report_of p" "insert (pair_key p) (seen \<union> pair_key ` set before)" after]
    by (auto simp: k)
  from assms a b show ?thesis
    by (auto simp: new_reports_append)
qed

subsection \<open>Square roots, the norm floor and some evaluated instances\<close>

lemma isqrt_loop_lower:
  "r * r \<le> n \<Longrightarrow> isqrt_loop n k r * isqrt_loop n k r \<le> n"
  by (induction k arbitrary: r) auto

lemma isqrt_lower: "isqrt n * isqrt n \<le> n"
  unfolding isqrt_def by (rule isqrt_loop_lower) simp

lemma isqrt_square: "isqrt (r * r) = r"
proof -
  define q where "q = isqrt (r * r)"
  have lo: "q * q \<le> r * r" unfolding q_def by (rule isqrt_lower)
  have hi: "r * r < (q + 1) * (q + 1)" unfolding q_def by (rule isqrt_upper)
  have "q \<le> r"
  proof (rule ccontr)
    assume "\<not> q \<le> r"
    then have "r + 1 \<le> q" by simp
    then have "(r + 1) * (r + 1) \<le> q * q" using mult_le_mono by blast
    with lo show False by simp
  qed
  moreover have "r \<le> q"
  proof (rule ccontr)
    assume "\<not> r \<le> q"
    then have "q + 1 \<le> r" by simp
    then have "(q + 1) * (q + 1) \<le> r * r" using mult_le_mono by blast
    with hi show False by simp
  qed
  ultimately show ?thesis by (simp add: q_def)
qed

lemma isqrt_2_162: "isqrt 5846006549323611672814739330865132078623730171904 = 2417851639229258349412352"
  using isqrt_square [of 2417851639229258349412352] by simp

lemma fsqrt_one: "fsqrt fone = Inr fone"
proof -
  have "fsqrt fone = Inr (rnd False 4835703278458516698824704 4835703278458516698824704)"
    by (simp add: fone_def isqrt_2_162 rnd_scaled_def)
  also have "rnd False 4835703278458516698824704 4835703278458516698824704 = fone"
    by (simp add: float_eval)
  finally show ?thesis .
qed

lemma fmul_one_one: "fmul fone fone = fone"
  by (simp add: float_eval)

lemma fadd_zero_one: "fadd (fzero False) fone = fone"
  by (simp add: float_eval)

lemma fdiv_one_one: "fdiv fone fone = Inr fone"
  by (simp add: float_eval)

lemma not_zero_one: "\<not> is_zero fone"
  by (simp add: fone_def is_zero_def)

lemma cos_one: "cos_vec [fone] [fone] = Inr fone"
  by (simp add: cos_vec_def norm_vec_def dot_def py_sum_def fmul_one_one fadd_zero_one fsqrt_one
      not_zero_one fdiv_one_one)

lemma one_ge_thresh: "fge fone NEAR_THRESH"
  by (simp add: float_eval NEAR_THRESH_def)

lemma thresh_ge_thresh: "fge NEAR_THRESH NEAR_THRESH"
  by (simp add: fge_def NEAR_THRESH_def)

lemma fmul_zero_self: "is_zero x \<Longrightarrow> fmul x x = fzero False"
  by (cases x) (auto simp: is_zero_def rnd_scaled_def rnd_def)

lemma fadd_zero_zero: "fadd (fzero False) (fzero False) = fzero False"
  by (simp add: fzero_def align_exp_def aligned_def)

lemma sum_squares_zero:
  assumes "\<forall>x \<in> set v. is_zero x"
  shows "py_sum (map (\<lambda>x. fmul x x) v) = fzero False"
proof -
  have "foldl fadd (fzero False) (map (\<lambda>x. fmul x x) v) = fzero False"
    using assms by (induction v) (auto simp: fmul_zero_self fadd_zero_zero)
  then show ?thesis by (simp add: py_sum_def)
qed

lemma fsqrt_zero: "fsqrt (fzero False) = Inr (fzero False)"
  by (simp add: fzero_def)

lemma norm_vec_zero: "\<forall>x \<in> set v. is_zero x \<Longrightarrow> norm_vec v = Inr fone"
  by (simp add: norm_vec_def sum_squares_zero fsqrt_zero) (simp add: is_zero_def fzero_def)

lemma scan_buckets_total: "\<exists>res. scan_buckets bs acc = Inr res"
  by (cases acc) (simp add: scan_buckets_eq)

subsection \<open>One step of the ingestion loop\<close>

lemma passes_gate_mk [simp]: "passes_gate (mk_glyph gid v) \<longleftrightarrow> gid \<noteq> []"
  by (simp add: passes_gate_def mk_glyph_def)

lemma vec_items_mk [simp]: "vec_items (mk_glyph gid v) = v"
  by (simp add: vec_items_def mk_glyph_def)

lemma process_glyph_no_gate:
  "\<not> passes_gate g \<Longrightarrow> process_glyph sha256 rng st (g, src) = Inr st"
  by (auto simp: process_glyph.simps passes_gate_def split: option.splits json.splits)

lemma process_glyph_gate:
  assumes "g_id g = Some gid" and "gid \<noteq> []" and "g_vec g = JArr v"
  shows "process_glyph sha256 rng st (g, src) =
     (if dims st \<noteq> None \<and> dims st \<noteq> Some (length v) then Inr st
      else
        let st1 = (if dims st = None
                   then st\<lparr>dims := Some (length v),
                           basis := Some (gen_projections rng (length v) N_PROJ 47)\<rparr>
                   else st)
        in (case collect py_float v of
              Inl err \<Rightarrow> Inr st1
            | Inr v_raw \<Rightarrow>
                (case round_vec v_raw PREC of
                   Inl err \<Rightarrow> Inl err
                 | Inr v_r \<Rightarrow>
                     (case basis st1 of
                        None \<Rightarrow> Inl TypeError
                      | Some R \<Rightarrow>
                          Inr (st1\<lparr>exact_index :=
                                      setdefault_append (hash_vec sha256 v_r)
                                        (gid, basename src) (exact_index st1),
                                    sig_buckets :=
                                      setdefault_append (sign_signature v_raw R)
                                        (gid, basename src, v_r, v_raw) (sig_buckets st1),
                                    total := total st1 + 1\<rparr>)))))"
  using assms by (simp add: process_glyph.simps)

lemma process_glyph_rejected:
  assumes "\<not> passes_gate g
     \<or> (\<exists>d. dims st = Some d \<and> d \<noteq> length (vec_items g))
     \<or> (\<exists>e. collect py_float (vec_items g) = Inl e)"
  shows "\<exists>st'. process_glyph sha256 rng st (g, src) = Inr st'
     \<and> exact_index st' = exact_index st \<and> sig_buckets st' = sig_buckets st \<and> total st' = total st"
proof (cases "passes_gate g")
  case False
  then show ?thesis by (simp add: process_glyph_no_gate)
next
  case True
  then obtain gid v where g: "g_id g = Some gid" "gid \<noteq> []" "g_vec g = JArr v"
    by (auto simp: passes_gate_def)
  have vi: "vec_items g = v" by (simp add: vec_items_def g)
  from assms True vi
  have "(\<exists>d. dims st = Some d \<and> d \<noteq> length v) \<or> (\<exists>e. collect py_float v = Inl e)"
    by auto
  then show ?thesis
    by (auto simp: process_glyph_gate [OF g] Let_def)
qed

lemma process_glyph_dims_fixed:
  assumes "dims st = Some d" and "process_glyph sha256 rng st (g, src) = Inr st'"
  shows "dims st' = Some d \<and> basis st' = basis st"
proof (cases "passes_gate g")
  case False
  with assms show ?thesis by (simp add: process_glyph_no_gate)
next
  case True
  then obtain gid v where g: "g_id g = Some gid" "gid \<noteq> []" "g_vec g = JArr v"
    by (auto simp: passes_gate_def)
  from assms(2) show ?thesis
    using assms(1)
    by (auto simp: process_glyph_gate [OF g] Let_def split: if_splits sum.splits option.splits)
qed

lemma process_glyph_dims_set:
  assumes "dims st = None" and "passes_gate g"
    and "process_glyph sha256 rng st (g, src) = Inr st'"
  shows "dims st' = Some (length (vec_items g))
     \<and> basis st' = Some (gen_projections rng (length (vec_items g)) N_PROJ 47)"
proof -
  from assms(2) obtain gid v where g: "g_id g = Some gid" "gid \<noteq> []" "g_vec g = JArr v"
    by (auto simp: passes_gate_def)
  have vi: "vec_items g = v" by (simp add: vec_items_def g)
  from assms(3) show ?thesis
    using assms(1)
    by (auto simp: process_glyph_gate [OF g] vi Let_def split: if_splits sum.splits option.splits)
qed

lemma ingest_dims:
  assumes "ingest sha256 rng st stream = Inr st'"
    and "basis st = map_option (\<lambda>d. gen_projections rng d N_PROJ 47) (dims st)"
  shows "dims st' =
      (case dims st of
         Some d \<Rightarrow> Some d
       | None \<Rightarrow> map_option (\<lambda>gs. length (vec_items (fst gs))) (find (\<lambda>gs. passes_gate (fst gs)) stream))
    \<and> basis st' = map_option (\<lambda>d. gen_projections rng d N_PROJ 47) (dims st')"
  using assms
proof (induction stream arbitrary: st)
  case Nil
  then show ?case by (auto split: option.splits)
next
  case (Cons gs stream)
  obtain g src where gs: "gs = (g, src)" by (cases gs) auto
  from Cons.prems(1) obtain st1 where p: "process_glyph sha256 rng st (g, src) = Inr st1"
    and i: "ingest sha256 rng st1 stream = Inr st'"
    by (auto simp: gs split: sum.splits)
  show ?case
  proof (cases "dims st")
    case (Some d)
    from process_glyph_dims_fixed [OF Some p] have d1: "dims st1 = Some d" "basis st1 = basis st"
      by auto
    with Cons.prems(2) Some have "basis st1 = map_option (\<lambda>d. gen_projections rng d N_PROJ 47) (dims st1)"
      by simp
    from Cons.IH [OF i this] d1 Some show ?thesis by simp
  next
    case None
    show ?thesis
    proof (cases "passes_gate g")
      case True
      from process_glyph_dims_set [OF None True p]
      have d1: "dims st1 = Some (length (vec_items g))"
        "basis st1 = Some (gen_projections rng (length (vec_items g)) N_PROJ 47)" by auto
      then have "basis st1 = map_option (\<lambda>d. gen_projections rng d N_PROJ 47) (dims st1)" by simp
      from Cons.IH [OF i this] d1 None True show ?thesis by (simp add: gs)
    next
      case False
      with p have "st1 = st" by (simp add: process_glyph_no_gate)
      with Cons.IH [OF _ Cons.prems(2)] i None False show ?thesis by (simp add: gs)
    qed
  qed
qed

subsection \<open>Signatures\<close>

lemma proj_loop_is_dot:
  "foldl (\<lambda>s (xi, ri). fadd s (fmul xi ri)) z (zip v r) =
   foldl fadd z (map (\<lambda>(x, y). fmul x y) (zip v r))"
  by (simp add: foldl_map case_prod_unfold)

lemma zero_ge_zero: "is_zero x \<Longrightarrow> fge x (fzero False)"
  by (cases x) (auto simp: is_zero_def fge_def fzero_def aligned_def align_exp_def)

text \<open>
  Claim C7. For every raw vector \<open>v\<close> and basis \<open>R\<close>, \<open>sign_signature v R\<close> has one bit per
  hyperplane, in the order of \<open>R\<close>; the bit is 1 if the dot product of \<open>v\<close> with the
  hyperplane (the float sum the loop accumulates, which is what \<open>dot\<close> computes) is
  \<open>\<ge> 0\<close> and 0 otherwise, and a dot product that is exactly zero gives bit 1.
\<close>

theorem sign_signature_bits:
  "sign_signature v R = map (\<lambda>r. if fge (dot v r) (fzero False) then 1 else 0) R
   \<and> (\<forall>r. is_zero (dot v r) \<longrightarrow> sign_signature v [r] = [1])"
  by (simp add: sign_signature_def dot_def py_sum_def proj_loop_is_dot zero_ge_zero)

theorem sign_signature_bits_witness:
  "is_zero (dot [fone, fminus_one] [fone, fone])
   \<and> sign_signature [fone, fminus_one] [[fone, fone]] = [1]"
proof -
  have z: "is_zero (dot [fone, fminus_one] [fone, fone])"
    by (simp add: dot_def py_sum_def float_eval)
  have "sign_signature [fone, fminus_one] [[fone, fone]] = [1]"
    using sign_signature_bits [of "[fone, fminus_one]" "[]"] z by blast
  with z show ?thesis ..
qed

subsection \<open>The norm floor and the cosine\<close>

text \<open>
  Claim C8. \<open>norm_vec v\<close> is 1.0 whenever the square root of the sum of squares is exactly
  zero, in particular for every all-zero vector; the division in \<open>cos_vec a b\<close> is never by
  zero: \<open>cos_vec\<close> returns a value for all vectors, and the whole scan of the buckets
  returns without an exception.
\<close>

theorem norm_floor_no_fault:
  "(\<forall>r. fsqrt (py_sum (map (\<lambda>x. fmul x x) v)) = Inr r \<and> is_zero r \<longrightarrow> norm_vec v = Inr fone)
   \<and> ((\<forall>x \<in> set v. is_zero x) \<longrightarrow> norm_vec v = Inr fone)
   \<and> (\<exists>c. cos_vec a b = Inr c)
   \<and> (\<exists>res. scan_buckets bs acc = Inr res)"
proof (intro conjI allI impI)
  fix r
  assume "fsqrt (py_sum (map (\<lambda>x. fmul x x) v)) = Inr r \<and> is_zero r"
  then show "norm_vec v = Inr fone" by (simp add: norm_vec_def)
next
  assume "\<forall>x \<in> set v. is_zero x"
  then show "norm_vec v = Inr fone" by (rule norm_vec_zero)
next
  show "\<exists>c. cos_vec a b = Inr c" by (rule cos_vec_total)
next
  show "\<exists>res. scan_buckets bs acc = Inr res" by (rule scan_buckets_total)
qed

theorem norm_floor_no_fault_witness:
  "is_zero (fzero False) \<and> is_zero (fzero True)
   \<and> fsqrt (py_sum (map (\<lambda>x. fmul x x) [fzero False, fzero True])) = Inr (fzero False)
   \<and> is_zero (fzero False)
   \<and> norm_vec [fzero False, fzero True] = Inr fone"
proof -
  have z: "\<forall>x \<in> set [fzero False, fzero True]. is_zero x"
    by (simp add: is_zero_def fzero_def)
  have s: "fsqrt (py_sum (map (\<lambda>x. fmul x x) [fzero False, fzero True])) = Inr (fzero False)"
    using z by (simp only: sum_squares_zero fsqrt_zero)
  have "norm_vec [fzero False, fzero True] = Inr fone"
    using norm_floor_no_fault [of "[fzero False, fzero True]" "[]" "[]" "[]" "({}, [])"] z by blast
  with z s show ?thesis by (simp add: is_zero_def fzero_def)
qed

subsection \<open>The near-clone scan\<close>

lemma pair_cos_samples:
  "pair_cos (entry_a1, entry_b1) = fone" "pair_cos (entry_a1, entry_a2) = fone"
  "pair_cos (entry_a1, entry_b2) = fone" "pair_cos (entry_b1, entry_a2) = fone"
  "pair_cos (entry_b1, entry_b2) = fone" "pair_cos (entry_a2, entry_b2) = fone"
  by (simp_all add: pair_cos_def raw_vec_def entry_a1_def entry_b1_def entry_a2_def entry_b2_def
      cos_one)

text \<open>
  Claim C5. Let \<open>p\<close> be a pair of entries of one bucket that the scan reaches when its id pair
  has not been seen before. Its line, with its cosine, is among the reported near-clones exactly
  when the cosine is \<open>\<ge> NEAR_THRESH\<close>; a cosine equal to the threshold is \<open>\<ge>\<close> it, and one
  strictly below it is not.
\<close>

theorem near_threshold:
  assumes "scan_buckets bs ({}, []) = Inr (seen, found)"
    and "compared_pairs bs = before @ p # after"
    and "pair_key p \<notin> pair_key ` set before"
  shows "cos_vec (raw_vec (fst p)) (raw_vec (snd p)) = Inr (pair_cos p)
    \<and> (report_of p \<in> set found \<longleftrightarrow> fge (pair_cos p) NEAR_THRESH)
    \<and> fge NEAR_THRESH NEAR_THRESH
    \<and> (\<forall>c. flt c NEAR_THRESH \<longrightarrow> \<not> fge c NEAR_THRESH)"
proof -
  have c: "cos_vec (raw_vec (fst p)) (raw_vec (snd p)) = Inr (pair_cos p)"
    using cos_vec_total [of "raw_vec (fst p)" "raw_vec (snd p)"] by (auto simp: pair_cos_def)
  from assms(1) have f: "found = new_reports {} (compared_pairs bs)"
    by (simp add: scan_buckets_eq)
  have r: "report_of p \<in> set found \<longleftrightarrow> fge (pair_cos p) NEAR_THRESH"
    unfolding f assms(2) using assms(3) by (intro new_reports_at) auto
  have b: "\<not> fge c NEAR_THRESH" if "flt c NEAR_THRESH" for c
    using that by (cases c) (auto simp: fge_def NEAR_THRESH_def)
  from c r b thresh_ge_thresh show ?thesis by blast
qed


theorem near_threshold_witness:
  "scan_buckets [([1], [entry_a1, entry_b2])] ({}, [])
     = Inr ({(''a'', ''b'')}, [((''a'', ''f1.json''), (''b'', ''f2.json''), fone)])
   \<and> compared_pairs [([1], [entry_a1, entry_b2])] = [] @ (entry_a1, entry_b2) # []
   \<and> pair_key (entry_a1, entry_b2) \<notin> pair_key ` set []
   \<and> report_of (entry_a1, entry_b2) \<in> set [((''a'', ''f1.json''), (''b'', ''f2.json''), fone)]
   \<and> fge (pair_cos (entry_a1, entry_b2)) NEAR_THRESH"
proof -
  have s: "scan_buckets [([1], [entry_a1, entry_b2])] ({}, [])
     = Inr ({(''a'', ''b'')}, [((''a'', ''f1.json''), (''b'', ''f2.json''), fone)])"
    by (simp add: entry_a1_def entry_b2_def cos_one one_ge_thresh)
  have cp: "compared_pairs [([1], [entry_a1, entry_b2])] = [] @ (entry_a1, entry_b2) # []"
    by (simp add: compared_pairs_def)
  have k: "pair_key (entry_a1, entry_b2) \<notin> pair_key ` set []" by simp
  have r: "report_of (entry_a1, entry_b2) \<in> set [((''a'', ''f1.json''), (''b'', ''f2.json''), fone)]"
    by (simp add: report_of_def member_of_def pair_cos_samples) (simp add: entry_a1_def entry_b2_def)
  from near_threshold [OF s cp k] r s cp k show ?thesis by blast
qed

text \<open>
  Claim C9. The key looked up in \<open>seen_pairs\<close> is the pair of the two ids, without the files.
  No two reported near-clones have the same ordered id pair; and a pair that the scan reaches
  after another pair with the same ids leaves the report as it would be if the later pair were
  not compared at all, whatever its cosine and whatever files its members come from.
\<close>

theorem seen_pair_guard:
  assumes "scan_buckets bs ({}, []) = Inr (seen, found)"
  shows "pair_key ((gid_i, src_i, vri, vi), (gid_j, src_j, vrj, vj)) = (gid_i, gid_j)
    \<and> distinct (map report_key found)
    \<and> (\<forall>before p after.
          compared_pairs bs = before @ p # after \<and> pair_key p \<in> pair_key ` set before
          \<longrightarrow> found = new_reports {} (before @ after))"
proof -
  from assms have f: "found = new_reports {} (compared_pairs bs)"
    by (simp add: scan_buckets_eq)
  have "new_reports {} (before @ p # after) = new_reports {} (before @ after)"
    if "pair_key p \<in> pair_key ` set before" for before p after
    using that by (simp add: new_reports_append)
  then show ?thesis
    by (auto simp: f new_reports_distinct pair_key_def)
qed

theorem seen_pair_guard_witness:
  "scan_buckets [([1], [entry_a1, entry_b1, entry_a2, entry_b2])] ({}, [])
     = Inr ({(''a'', ''b''), (''a'', ''a''), (''b'', ''a''), (''b'', ''b'')},
            [((''a'', ''f1.json''), (''b'', ''f1.json''), fone),
             ((''a'', ''f1.json''), (''a'', ''f2.json''), fone),
             ((''b'', ''f1.json''), (''a'', ''f2.json''), fone),
             ((''b'', ''f1.json''), (''b'', ''f2.json''), fone)])
   \<and> compared_pairs [([1], [entry_a1, entry_b1, entry_a2, entry_b2])]
       = [(entry_a1, entry_b1), (entry_a1, entry_a2), (entry_a1, entry_b2), (entry_b1, entry_a2),
          (entry_b1, entry_b2)] @ (entry_a2, entry_b2) # []
   \<and> pair_key (entry_a2, entry_b2)
       \<in> pair_key ` set [(entry_a1, entry_b1), (entry_a1, entry_a2), (entry_a1, entry_b2),
                          (entry_b1, entry_a2), (entry_b1, entry_b2)]
   \<and> fge (pair_cos (entry_a2, entry_b2)) NEAR_THRESH
   \<and> [((''a'', ''f1.json''), (''b'', ''f1.json''), fone),
       ((''a'', ''f1.json''), (''a'', ''f2.json''), fone),
       ((''b'', ''f1.json''), (''a'', ''f2.json''), fone),
       ((''b'', ''f1.json''), (''b'', ''f2.json''), fone)]
      = new_reports {} ([(entry_a1, entry_b1), (entry_a1, entry_a2), (entry_a1, entry_b2),
                         (entry_b1, entry_a2), (entry_b1, entry_b2)] @ [])"
proof -
  let ?bs = "[([1::nat], [entry_a1, entry_b1, entry_a2, entry_b2])]"
  let ?before = "[(entry_a1, entry_b1), (entry_a1, entry_a2), (entry_a1, entry_b2),
                  (entry_b1, entry_a2), (entry_b1, entry_b2)]"
  let ?found = "[((''a'', ''f1.json''), (''b'', ''f1.json''), fone),
             ((''a'', ''f1.json''), (''a'', ''f2.json''), fone),
             ((''b'', ''f1.json''), (''a'', ''f2.json''), fone),
             ((''b'', ''f1.json''), (''b'', ''f2.json''), fone)]"
  have s: "scan_buckets ?bs ({}, [])
     = Inr ({(''a'', ''b''), (''a'', ''a''), (''b'', ''a''), (''b'', ''b'')}, ?found)"
    by (simp add: entry_a1_def entry_b1_def entry_a2_def entry_b2_def cos_one one_ge_thresh
        insert_commute)
  have cp: "compared_pairs ?bs = ?before @ (entry_a2, entry_b2) # []"
    by (simp add: compared_pairs_def)
  have k: "pair_key (entry_a2, entry_b2) \<in> pair_key ` set ?before"
    by (simp add: pair_key_def entry_a1_def entry_b1_def entry_a2_def entry_b2_def)
  have q: "fge (pair_cos (entry_a2, entry_b2)) NEAR_THRESH"
    by (simp add: pair_cos_samples one_ge_thresh)
  from seen_pair_guard [OF s] cp k have "?found = new_reports {} (?before @ [])"
    by blast
  with s cp k q show ?thesis by blast
qed

subsection \<open>Validation of records and the dimensionality\<close>

lemmas string_eval =
  format_g_def dec_exp_def digit_char_def digits_of.simps strip_zeros_def sign_str_def sci_str_def
  fixed_str_def is_space_def is_digit_def digit_val_def lower_def parse_exponent_def
  nat_of_digits_def float_of_string_def round_vec_def hash_input_def PREC_def

lemma round_vec_nan: "round_vec [NaN] PREC = Inr [NaN]"
  by (simp add: string_eval)

lemma hash_input_nan: "hash_input [NaN] = ''nan,''"
  by (simp add: string_eval)

lemma float_of_string_x: "float_of_string ''x'' = Inl ValueError"
  by (simp add: string_eval)

lemma collect_floats: "collect py_float (map JFloat xs) = Inr xs"
  by (induction xs) auto

lemma float_of_int_1: "float_of_int 1 = Inr fone"
  by (simp add: float_eval)

text \<open>
  Claim C2, as amended. The loop skips, without an exception and leaving both indexes and the
  count as they were, every record whose id is missing or empty or whose \<open>vec\<close> is not a
  list, every record whose list has another length than the established \<open>dims\<close>, and every
  record with an element that \<open>float()\<close> does not convert. \<open>float()\<close> converts every float,
  NaN and the infinities included, so a vector of floats is never rejected for its values.
\<close>

theorem rejected_records_skipped:
  "(\<not> passes_gate g
      \<or> (\<exists>d. dims st = Some d \<and> d \<noteq> length (vec_items g))
      \<or> (\<exists>e. collect py_float (vec_items g) = Inl e)
     \<longrightarrow> (\<exists>st'. process_glyph sha256 rng st (g, src) = Inr st'
            \<and> exact_index st' = exact_index st \<and> sig_buckets st' = sig_buckets st
            \<and> total st' = total st))
   \<and> collect py_float (map JFloat xs) = Inr xs
   \<and> py_float (JFloat NaN) = Inr NaN
   \<and> py_float (JFloat (Inf s)) = Inr (Inf s)"
  using process_glyph_rejected [of g st sha256 rng src] by (simp add: collect_floats)

theorem rejected_records_skipped_witness:
  "collect py_float (vec_items (mk_glyph ''a'' [JInt 1, JNull])) = Inl TypeError
   \<and> (\<exists>st'. process_glyph sample_sha sample_rng init_state (mk_glyph ''a'' [JInt 1, JNull], ''f.json'')
              = Inr st'
         \<and> exact_index st' = exact_index init_state \<and> sig_buckets st' = sig_buckets init_state
         \<and> total st' = total init_state)"
proof -
  have c: "collect py_float (vec_items (mk_glyph ''a'' [JInt 1, JNull])) = Inl TypeError"
    by (simp add: float_of_int_1)
  with rejected_records_skipped [of "mk_glyph ''a'' [JInt 1, JNull]" init_state sample_sha
      sample_rng "''f.json''" "[]" False]
  show ?thesis by blast
qed

theorem rejected_records_skipped_counterexample:
  "\<forall>sha256 rng. \<exists>st.
     process_glyph sha256 rng init_state (mk_glyph ''a'' [JFloat NaN], ''f.json'') = Inr st
     \<and> exact_index st = [(sha256 ''nan,'', [(''a'', ''f.json'')])]
     \<and> sig_buckets st =
         [(sign_signature [NaN] (gen_projections rng 1 N_PROJ 47), [(''a'', ''f.json'', [NaN], [NaN])])]
     \<and> total st = 1"
  by (simp add: process_glyph.simps mk_glyph_def init_state_def round_vec_nan hash_vec_def
      hash_input_nan basename_def)

text \<open>
  Claim C4, as amended. \<open>dims\<close> and the basis are set once, by the first record of the stream
  that has a non-empty id and a list as \<open>vec\<close>, to the length of that list and the basis
  generated for it, whether or not the elements of the list then convert to floats; no later
  record changes them, and a record without a non-empty id or without a list never sets them.
\<close>

theorem dims_established_once:
  assumes "ingest sha256 rng init_state stream = Inr st"
  shows "dims st = map_option (\<lambda>gs. length (vec_items (fst gs)))
                     (find (\<lambda>gs. passes_gate (fst gs)) stream)
    \<and> basis st = map_option (\<lambda>d. gen_projections rng d N_PROJ 47) (dims st)
    \<and> (\<forall>st1 d g src st2.
          dims st1 = Some d \<and> process_glyph sha256 rng st1 (g, src) = Inr st2
          \<longrightarrow> dims st2 = Some d \<and> basis st2 = basis st1)
    \<and> (\<forall>st1 g src. \<not> passes_gate g \<longrightarrow> process_glyph sha256 rng st1 (g, src) = Inr st1)"
proof -
  have "basis init_state = map_option (\<lambda>d. gen_projections rng d N_PROJ 47) (dims init_state)"
    by (simp add: init_state_def)
  from ingest_dims [OF assms this]
  have "dims st = map_option (\<lambda>gs. length (vec_items (fst gs)))
                     (find (\<lambda>gs. passes_gate (fst gs)) stream)
    \<and> basis st = map_option (\<lambda>d. gen_projections rng d N_PROJ 47) (dims st)"
    by (simp add: init_state_def)
  then show ?thesis
    using process_glyph_dims_fixed process_glyph_no_gate by blast
qed

lemma ingest_bad_first:
  "ingest sha256 rng init_state
     [(mk_glyph ''a'' [JStr ''x''], ''f.json''), (mk_glyph ''b'' [JInt 1, JInt 2], ''f.json''),
      (mk_glyph ''c'' [JInt 1, JInt 2], ''f.json'')]
   = Inr (init_state\<lparr>dims := Some 1, basis := Some (gen_projections rng 1 N_PROJ 47)\<rparr>)"
  by (simp add: process_glyph.simps mk_glyph_def init_state_def float_of_string_x)

theorem dims_established_once_witness:
  "ingest sample_sha sample_rng init_state
     [(mk_glyph ''a'' [JStr ''x''], ''f.json''), (mk_glyph ''b'' [JInt 1, JInt 2], ''f.json''),
      (mk_glyph ''c'' [JInt 1, JInt 2], ''f.json'')]
   = Inr (init_state\<lparr>dims := Some 1, basis := Some (gen_projections sample_rng 1 N_PROJ 47)\<rparr>)
   \<and> dims (init_state\<lparr>dims := Some 1, basis := Some (gen_projections sample_rng 1 N_PROJ 47)\<rparr>)
     = map_option (\<lambda>gs. length (vec_items (fst gs)))
         (find (\<lambda>gs. passes_gate (fst gs))
            [(mk_glyph ''a'' [JStr ''x''], ''f.json''), (mk_glyph ''b'' [JInt 1, JInt 2], ''f.json''),
             (mk_glyph ''c'' [JInt 1, JInt 2], ''f.json'')])"
  using dims_established_once [OF ingest_bad_first [of sample_sha sample_rng]] ingest_bad_first
  by blast

theorem dims_established_once_counterexample:
  "\<forall>sha256 rng. \<exists>st.
     collect py_float [JStr ''x''] = Inl ValueError
     \<and> ingest sha256 rng init_state
         [(mk_glyph ''a'' [JStr ''x''], ''f.json''), (mk_glyph ''b'' [JInt 1, JInt 2], ''f.json''),
          (mk_glyph ''c'' [JInt 1, JInt 2], ''f.json'')] = Inr st
     \<and> dims st = Some 1 \<and> basis st = Some (gen_projections rng 1 N_PROJ 47)
     \<and> exact_index st = [] \<and> sig_buckets st = [] \<and> total st = 0"
proof (intro allI)
  fix sha256 :: "string \<Rightarrow> string" and rng :: "int \<Rightarrow> nat \<Rightarrow> pyfloat"
  show "\<exists>st.
     collect py_float [JStr ''x''] = Inl ValueError
     \<and> ingest sha256 rng init_state
         [(mk_glyph ''a'' [JStr ''x''], ''f.json''), (mk_glyph ''b'' [JInt 1, JInt 2], ''f.json''),
          (mk_glyph ''c'' [JInt 1, JInt 2], ''f.json'')] = Inr st
     \<and> dims st = Some 1 \<and> basis st = Some (gen_projections rng 1 N_PROJ 47)
     \<and> exact_index st = [] \<and> sig_buckets st = [] \<and> total st = 0"
    unfolding ingest_bad_first by (simp add: float_of_string_x init_state_def)
qed

end
